theory Spec2Isabelle
  imports Main "HOL-Library.Sublist"
begin

section \<open>The room coordinator of the DKA game server\<close>

text \<open>
  The server keeps one process-wide object \<open>rooms\<close>, keyed by room identifier, and reacts
  to five socket events (\<open>join_room\<close>, \<open>toggle_ready\<close>, \<open>kick_player\<close>, \<open>update_player\<close>,
  \<open>disconnect\<close>) and to one timer callback (the reset action that \<open>update_player\<close> schedules
  with \<open>setTimeout\<close>). The embedding follows the variant of the server that has the kick
  handler and the timed reset; \<open>src/index.js\<close> is an earlier variant of the same server
  without these two.

  Every handler is a function from the registry (and the values the handler reads: the
  sender's \<open>socket.id\<close>, the payload, \<open>Date.now()\<close>) to the new registry and the list of
  effects it performs, in program order. \<open>console.log\<close> is left out.
\<close>

subsection \<open>Configuration\<close>

definition REQUIRED_PLAYERS :: nat where
  "REQUIRED_PLAYERS = 2"

definition LEADERBOARD_DURATION :: int where
  "LEADERBOARD_DURATION = 10000"

subsection \<open>Data\<close>

text \<open>
  A player object. The fields \<open>id\<close> and \<open>status\<close> of the source are \<open>id_p\<close> and \<open>status_p\<close>
  here (\<open>id\<close> is the identity function of HOL, \<open>status\<close> is also a field of a room). A
  player's status is whatever string the client last sent with \<open>update_player\<close>.
\<close>

record player =
  id_p :: string
  name :: string
  isReady :: bool
  score :: int
  status_p :: string

text \<open>The status of a room is only ever written by the server, with these three values.\<close>

datatype room_status = LOBBY | PLAYING | GAME_OVER

record room =
  players :: "player list"
  status :: room_status

text \<open>
  The registry is the list of the own properties of \<open>rooms\<close>, in the order in which
  \<open>for (const roomId in rooms)\<close> enumerates them.
\<close>

type_synonym registry = "(string \<times> room) list"

datatype event =
    error_msg string
  | room_update "player list"
  | start_game int
  | player_updated player
  | force_game_over "player list" int
  | kicked

text \<open>
  \<open>socket_emit sid e\<close> is \<open>socket.emit\<close> on the connection \<open>sid\<close> (that connection only);
  \<open>io_to_emit c e\<close> is \<open>io.to(c).emit\<close>, delivered to every connection in the channel \<open>c\<close>
  (a room identifier, or a socket id, which names the channel of that one connection);
  \<open>socket_join sid c\<close> is \<open>socket.join\<close>; \<open>setTimeout roomId d\<close> schedules the reset action of
  \<open>roomId\<close> after \<open>d\<close> milliseconds.
\<close>

datatype effect =
    socket_emit string event
  | io_to_emit string event
  | socket_join string string
  | setTimeout string int

datatype error = TypeError

subsection \<open>Arrays\<close>

fun findIndex :: "('a \<Rightarrow> bool) \<Rightarrow> 'a list \<Rightarrow> nat option" where
  "findIndex P [] = None"
| "findIndex P (x # xs) = (if P x then Some 0 else map_option Suc (findIndex P xs))"

text \<open>\<open>splice1 i xs\<close> is the array after \<open>xs.splice(i, 1)\<close>.\<close>

definition splice1 :: "nat \<Rightarrow> 'a list \<Rightarrow> 'a list" where
  "splice1 i xs = take i xs @ drop (Suc i) xs"

fun decimal :: "nat \<Rightarrow> string" where
  "decimal n =
     (if n < 10 then [''0123456789'' ! n]
      else decimal (n div 10) @ [''0123456789'' ! (n mod 10)])"

declare decimal.simps [simp del]

subsection \<open>The object \<open>rooms\<close>\<close>

text \<open>
  \<open>rooms\<close> is created by \<open>{}\<close>, so a lookup \<open>rooms[roomId]\<close> that finds no own property
  falls through to \<open>Object.prototype\<close>. Each of its properties is a function or an object:
  truthy, with neither a \<open>players\<close> nor a \<open>status\<close> property.
\<close>

definition Object_prototype_keys :: "string list" where
  "Object_prototype_keys =
     [''constructor'', ''__defineGetter__'', ''__defineSetter__'', ''hasOwnProperty'',
      ''__lookupGetter__'', ''__lookupSetter__'', ''isPrototypeOf'', ''propertyIsEnumerable'',
      ''toString'', ''valueOf'', ''__proto__'', ''toLocaleString'']"

datatype lookup = Absent | Inherited | Own room

definition rooms_get :: "registry \<Rightarrow> string \<Rightarrow> lookup" where
  "rooms_get rs roomId =
     (case map_of rs roomId of
        Some room \<Rightarrow> Own room
      | None \<Rightarrow> if roomId \<in> set Object_prototype_keys then Inherited else Absent)"

text \<open>
  A new property is enumerated after the existing ones, unless its key is an array index
  (the canonical decimal numeral of a number below \<open>2^32 - 1\<close>): array indices are
  enumerated first, in ascending numeric order.
\<close>

definition index_value :: "string \<Rightarrow> nat" where
  "index_value s = foldl (\<lambda>n c. 10 * n + (of_char c - 48)) 0 s"

definition is_array_index :: "string \<Rightarrow> bool" where
  "is_array_index s \<longleftrightarrow>
     s \<noteq> [] \<and> list_all (\<lambda>c. c \<in> set ''0123456789'') s \<and>
     (hd s = CHR ''0'' \<longrightarrow> length s = 1) \<and> index_value s < 4294967295"

definition enumerated_before :: "string \<Rightarrow> string \<Rightarrow> bool" where
  "enumerated_before k k' \<longleftrightarrow>
     is_array_index k \<and> (is_array_index k' \<longrightarrow> index_value k < index_value k')"

fun rooms_insert :: "string \<Rightarrow> room \<Rightarrow> registry \<Rightarrow> registry" where
  "rooms_insert k r [] = [(k, r)]"
| "rooms_insert k r ((k', r') # rest) =
     (if enumerated_before k k' then (k, r) # (k', r') # rest
      else (k', r') # rooms_insert k r rest)"

text \<open>
  The handlers mutate a room object through a reference obtained from \<open>rooms[roomId]\<close>;
  \<open>rooms_set\<close> writes the mutated object back in its place.
\<close>

fun rooms_set :: "string \<Rightarrow> room \<Rightarrow> registry \<Rightarrow> registry" where
  "rooms_set k r [] = []"
| "rooms_set k r ((k', r') # rest) =
     (if k' = k then (k, r) # rest else (k', r') # rooms_set k r rest)"

definition rooms_delete :: "string \<Rightarrow> registry \<Rightarrow> registry" where
  "rooms_delete k rs = filter (\<lambda>(k', r). k' \<noteq> k) rs"

subsection \<open>checkAndStartGame\<close>

definition checkAndStartGame :: "int \<Rightarrow> string \<Rightarrow> registry \<Rightarrow> error + registry \<times> effect list" where
  "checkAndStartGame now roomId rs =
     (case rooms_get rs roomId of
        Absent \<Rightarrow> Inr (rs, [])
      | Inherited \<Rightarrow> Inl TypeError
      | Own room \<Rightarrow>
          let playerCount = length (players room);
              allReady = list_all isReady (players room)
          in if playerCount = REQUIRED_PLAYERS \<and> allReady then
               if status room \<noteq> PLAYING then
                 let startTime = now + 3000
                 in Inr (rooms_set roomId (room\<lparr>status := PLAYING\<rparr>) rs,
                         [io_to_emit roomId (start_game startTime)])
               else Inr (rs, [])
             else Inr (rs, []))"

subsection \<open>join_room\<close>

definition newPlayer :: "string \<Rightarrow> string option \<Rightarrow> player" where
  "newPlayer sid nm =
     \<lparr>id_p = sid,
      name = (case nm of
                None \<Rightarrow> ''Agent '' @ take 4 sid
              | Some n \<Rightarrow> if n = [] then ''Agent '' @ take 4 sid else n),
      isReady = False,
      score = 0,
      status_p = ''ALIVE''\<rparr>"

definition join_room ::
  "int \<Rightarrow> string \<Rightarrow> string \<Rightarrow> string option \<Rightarrow> registry \<Rightarrow> error + registry \<times> effect list" where
  "join_room now sid roomId nm rs =
     (let rs1 = (if rooms_get rs roomId = Absent
                 then rooms_insert roomId \<lparr>players = [], status = LOBBY\<rparr> rs else rs)
      in case rooms_get rs1 roomId of
           Absent \<Rightarrow> Inl TypeError
         | Inherited \<Rightarrow> Inl TypeError
         | Own room \<Rightarrow>
             if status room = PLAYING then
               Inr (rs1, [socket_emit sid (error_msg ''Mission already in progress. Access Denied.'')])
             else if length (players room) \<ge> REQUIRED_PLAYERS then
               Inr (rs1, [socket_emit sid
                 (error_msg (''Team is full (Max '' @ decimal REQUIRED_PLAYERS @ '' Agents).''))])
             else
               let ps = players room @ [newPlayer sid nm];
                   rs2 = rooms_set roomId (room\<lparr>players := ps\<rparr>) rs1
               in (case checkAndStartGame now roomId rs2 of
                     Inl e \<Rightarrow> Inl e
                   | Inr (rs3, es) \<Rightarrow>
                       Inr (rs3, [socket_join sid roomId, io_to_emit roomId (room_update ps)] @ es)))"

subsection \<open>toggle_ready\<close>

definition toggle_ready :: "int \<Rightarrow> string \<Rightarrow> string \<Rightarrow> registry \<Rightarrow> error + registry \<times> effect list" where
  "toggle_ready now sid roomId rs =
     (case rooms_get rs roomId of
        Absent \<Rightarrow> Inr (rs, [])
      | Inherited \<Rightarrow> Inl TypeError
      | Own room \<Rightarrow>
          (case findIndex (\<lambda>p. id_p p = sid) (players room) of
             None \<Rightarrow> Inr (rs, [])
           | Some i \<Rightarrow>
               let p = players room ! i;
                   ps = (players room)[i := p\<lparr>isReady := \<not> isReady p\<rparr>];
                   rs1 = rooms_set roomId (room\<lparr>players := ps\<rparr>) rs
               in (case checkAndStartGame now roomId rs1 of
                     Inl e \<Rightarrow> Inl e
                   | Inr (rs2, es) \<Rightarrow> Inr (rs2, io_to_emit roomId (room_update ps) # es))))"

subsection \<open>kick_player\<close>

definition kick_player :: "string \<Rightarrow> string \<Rightarrow> string \<Rightarrow> registry \<Rightarrow> error + registry \<times> effect list" where
  "kick_player sid roomId targetId rs =
     (case rooms_get rs roomId of
        Absent \<Rightarrow> Inr (rs, [])
      | Inherited \<Rightarrow> Inl TypeError
      | Own room \<Rightarrow>
          if length (players room) > 0 \<and> id_p (players room ! 0) = sid then
            if targetId = sid then Inr (rs, [])
            else
              (case findIndex (\<lambda>p. id_p p = targetId) (players room) of
                 None \<Rightarrow> Inr (rs, [])
               | Some targetIndex \<Rightarrow>
                   let ps = splice1 targetIndex (players room)
                   in Inr (rooms_set roomId (room\<lparr>players := ps\<rparr>) rs,
                           [io_to_emit targetId kicked, io_to_emit roomId (room_update ps)]))
          else Inr (rs, []))"

subsection \<open>update_player and the reset action\<close>

definition allDone :: "player list \<Rightarrow> bool" where
  "allDone ps = list_all (\<lambda>p. status_p p = ''DEAD'' \<or> status_p p = ''FINISHED'') ps"

definition update_player ::
  "int \<Rightarrow> string \<Rightarrow> string \<Rightarrow> int \<Rightarrow> string \<Rightarrow> registry \<Rightarrow> error + registry \<times> effect list" where
  "update_player now sid roomId sc st rs =
     (case rooms_get rs roomId of
        Absent \<Rightarrow> Inr (rs, [])
      | Inherited \<Rightarrow> Inl TypeError
      | Own room \<Rightarrow>
          (case findIndex (\<lambda>p. id_p p = sid) (players room) of
             None \<Rightarrow> Inr (rs, [])
           | Some i \<Rightarrow>
               let p = (players room ! i)\<lparr>score := sc, status_p := st\<rparr>;
                   ps = (players room)[i := p]
               in if allDone ps \<and> status room = PLAYING then
                    let resetTime = now + LEADERBOARD_DURATION
                    in Inr (rooms_set roomId (room\<lparr>players := ps, status := GAME_OVER\<rparr>) rs,
                            [io_to_emit roomId (player_updated p),
                             io_to_emit roomId (force_game_over ps resetTime),
                             setTimeout roomId LEADERBOARD_DURATION])
                  else
                    Inr (rooms_set roomId (room\<lparr>players := ps\<rparr>) rs,
                         [io_to_emit roomId (player_updated p)])))"

text \<open>
  The callback passed to \<open>setTimeout\<close>. It closes over \<open>roomId\<close> only and reads the registry
  when it fires. For a key inherited from \<open>Object.prototype\<close> the existence check passes
  and the status check returns.
\<close>

definition reset_action :: "string \<Rightarrow> registry \<Rightarrow> registry \<times> effect list" where
  "reset_action roomId rs =
     (case rooms_get rs roomId of
        Absent \<Rightarrow> (rs, [])
      | Inherited \<Rightarrow> (rs, [])
      | Own currentRoom \<Rightarrow>
          if status currentRoom \<noteq> GAME_OVER then (rs, [])
          else
            (case players currentRoom of
               captain # others \<Rightarrow>
                 let captain' = captain\<lparr>isReady := False, score := 0, status_p := ''ALIVE''\<rparr>
                 in (rooms_set roomId (currentRoom\<lparr>players := [captain'], status := LOBBY\<rparr>) rs,
                     map (\<lambda>p. io_to_emit (id_p p) kicked) others
                     @ [io_to_emit roomId (room_update [captain'])])
             | [] \<Rightarrow> (rooms_delete roomId rs, [])))"

subsection \<open>disconnect\<close>

text \<open>The loop over the rooms; a room deleted in the loop body is the one being visited.\<close>

fun disconnect :: "string \<Rightarrow> registry \<Rightarrow> registry \<times> effect list" where
  "disconnect sid [] = ([], [])"
| "disconnect sid ((roomId, room) # rest) =
     (let (rest', es) = disconnect sid rest
      in case findIndex (\<lambda>p. id_p p = sid) (players room) of
           None \<Rightarrow> ((roomId, room) # rest', es)
         | Some index \<Rightarrow>
             let ps = splice1 index (players room)
             in if length ps = 0 then (rest', es)
                else ((roomId, room\<lparr>players := ps\<rparr>) # rest',
                      io_to_emit roomId (room_update ps) # es))"

subsection \<open>The server as a transition system\<close>

text \<open>
  The state of the server is the registry together with the reset actions that have been
  scheduled and have not fired yet, oldest first (all are scheduled with the same delay, so
  they fire in the order in which they were scheduled). A step is one handler run to
  completion: the arrival of a socket event, or the firing of the oldest timer. The steps
  do not constrain the clock values or which connection sends what.
\<close>

datatype request =
    Join_room string string "string option"
  | Toggle_ready string string
  | Kick_player string string string
  | Update_player string string int string
  | Disconnect string

text \<open>\<open>Receive now r\<close>: the event \<open>r\<close> arrives while the clock reads \<open>now\<close>.\<close>

datatype occurrence = Receive int request | Timer_fires

record server =
  rooms :: registry
  timers :: "string list"

fun scheduled :: "effect list \<Rightarrow> string list" where
  "scheduled [] = []"
| "scheduled (setTimeout roomId d # es) = roomId # scheduled es"
| "scheduled (e # es) = scheduled es"

fun handler :: "int \<Rightarrow> request \<Rightarrow> registry \<Rightarrow> error + registry \<times> effect list" where
  "handler now (Join_room sid roomId nm) rs = join_room now sid roomId nm rs"
| "handler now (Toggle_ready sid roomId) rs = toggle_ready now sid roomId rs"
| "handler now (Kick_player sid roomId targetId) rs = kick_player sid roomId targetId rs"
| "handler now (Update_player sid roomId sc st) rs = update_player now sid roomId sc st rs"
| "handler now (Disconnect sid) rs = Inr (disconnect sid rs)"

fun step :: "occurrence \<Rightarrow> server \<Rightarrow> error + server \<times> effect list" where
  "step (Receive now r) s =
     (case handler now r (rooms s) of
        Inl e \<Rightarrow> Inl e
      | Inr (rs, es) \<Rightarrow> Inr (\<lparr>rooms = rs, timers = timers s @ scheduled es\<rparr>, es))"
| "step Timer_fires s =
     (case timers s of
        [] \<Rightarrow> Inr (s, [])
      | roomId # pending \<Rightarrow>
          let (rs, es) = reset_action roomId (rooms s)
          in Inr (\<lparr>rooms = rs, timers = pending\<rparr>, es))"

text \<open>A run of the server from a state: the occurrences in order, stopping at an error.\<close>

fun run :: "occurrence list \<Rightarrow> server \<Rightarrow> error + server" where
  "run [] s = Inr s"
| "run (a # as) s = (case step a s of Inl e \<Rightarrow> Inl e | Inr (s', es) \<Rightarrow> run as s')"

definition initial :: server where
  "initial = \<lparr>rooms = [], timers = []\<rparr>"

inductive reachable :: "server \<Rightarrow> bool" where
  reachable_initial: "reachable initial"
| reachable_step: "reachable s \<Longrightarrow> step a s = Inr (s', es) \<Longrightarrow> reachable s'"

subsection \<open>Observations on effects and runs\<close>

text \<open>The events emitted with \<open>io.to(c)\<close>, in order.\<close>

fun sent_to :: "string \<Rightarrow> effect list \<Rightarrow> event list" where
  "sent_to c [] = []"
| "sent_to c (io_to_emit c' e # es) = (if c' = c then e # sent_to c es else sent_to c es)"
| "sent_to c (x # es) = sent_to c es"

text \<open>
  \<open>rejoins a rs\<close>: the occurrence is a \<open>join_room\<close> from a connection whose id is already
  that of a player of the room it asks to join. The states reached by runs without such
  an occurrence are the \<open>reachable_joining_once\<close> ones.
\<close>

fun rejoins :: "occurrence \<Rightarrow> registry \<Rightarrow> bool" where
  "rejoins (Receive now (Join_room sid roomId nm)) rs =
     (case map_of rs roomId of
        None \<Rightarrow> False
      | Some room \<Rightarrow> sid \<in> set (map id_p (players room)))"
| "rejoins a rs = False"

inductive reachable_joining_once :: "server \<Rightarrow> bool" where
  joining_once_initial: "reachable_joining_once initial"
| joining_once_step:
    "reachable_joining_once s \<Longrightarrow> \<not> rejoins a (rooms s) \<Longrightarrow> step a s = Inr (s', es) \<Longrightarrow>
     reachable_joining_once s'"

subsection \<open>Sample data\<close>

text \<open>A room with two players, used to instantiate the theorems below.\<close>

definition room_ab :: "bool \<Rightarrow> bool \<Rightarrow> room_status \<Rightarrow> room" where
  "room_ab ra rb st =
     \<lparr>players = [\<lparr>id_p = ''a'', name = ''Ann'', isReady = ra, score = 0, status_p = ''ALIVE''\<rparr>,
                 \<lparr>id_p = ''b'', name = ''Bob'', isReady = rb, score = 0, status_p = ''ALIVE''\<rparr>],
      status = st\<rparr>"

definition ann :: "bool \<Rightarrow> int \<Rightarrow> string \<Rightarrow> player" where
  "ann r sc st = \<lparr>id_p = ''a'', name = ''Ann'', isReady = r, score = sc, status_p = st\<rparr>"

definition bob :: "bool \<Rightarrow> int \<Rightarrow> string \<Rightarrow> player" where
  "bob r sc st = \<lparr>id_p = ''b'', name = ''Bob'', isReady = r, score = sc, status_p = st\<rparr>"

section \<open>Properties\<close>

subsection \<open>The registry and the array helpers\<close>

lemma rooms_get_Own [simp]: "map_of rs k = Some r \<Longrightarrow> rooms_get rs k = Own r"
  by (simp add: rooms_get_def)

lemma rooms_get_Own_iff: "rooms_get rs k = Own r \<longleftrightarrow> map_of rs k = Some r"
  by (simp add: rooms_get_def split: option.splits)

lemma map_of_rooms_set:
  "map_of rs k = Some r0 \<Longrightarrow> map_of (rooms_set k r rs) = (map_of rs)(k \<mapsto> r)"
  by (induction rs) (auto split: if_splits)

lemma keys_rooms_set [simp]: "map fst (rooms_set k r rs) = map fst rs"
  by (induction rs) auto

lemma set_rooms_set: "set (rooms_set k r rs) \<subseteq> insert (k, r) (set rs)"
  by (induction rs) (auto split: if_splits)

lemma set_rooms_insert [simp]: "set (rooms_insert k r rs) = insert (k, r) (set rs)"
  by (induction rs) (auto split: if_splits)

lemma map_of_rooms_insert:
  "map_of rs k = None \<Longrightarrow> map_of (rooms_insert k r rs) = (map_of rs)(k \<mapsto> r)"
  by (induction rs) (auto split: if_splits)

lemma set_rooms_delete: "set (rooms_delete k rs) \<subseteq> set rs"
  by (auto simp: rooms_delete_def)

lemma map_of_rooms_delete: "map_of (rooms_delete k rs) = (map_of rs)(k := None)"
  by (induction rs) (auto simp: rooms_delete_def)

lemma findIndex_Some:
  "findIndex P xs = Some i \<Longrightarrow> i < length xs \<and> P (xs ! i) \<and> (\<forall>j<i. \<not> P (xs ! j))"
proof (induction xs arbitrary: i)
  case Nil
  then show ?case by simp
next
  case (Cons x xs)
  show ?case
  proof (cases "P x")
    case True
    with Cons.prems show ?thesis by simp
  next
    case False
    with Cons.prems obtain j where j: "findIndex P xs = Some j" "i = Suc j"
      by auto
    from Cons.IH [OF j(1)] False j(2) show ?thesis
      by (auto simp: less_Suc_eq_0_disj)
  qed
qed

lemma findIndex_None: "findIndex P xs = None \<longleftrightarrow> (\<forall>x\<in>set xs. \<not> P x)"
  by (induction xs) auto

lemma splice1_subseq: "subseq (splice1 i xs) xs"
proof -
  have "suffix (drop (Suc i) xs) (drop i xs)"
    by (metis Suc_eq_plus1 add.commute drop_drop suffix_drop)
  then have "subseq (take i xs @ drop (Suc i) xs) (take i xs @ drop i xs)"
    by (intro list_emb_append_mono) auto
  then show ?thesis
    by (simp add: splice1_def)
qed

lemma map_splice1: "map f (splice1 i xs) = splice1 i (map f xs)"
  by (simp add: splice1_def take_map drop_map)

lemma length_splice1: "i < length xs \<Longrightarrow> length (splice1 i xs) = length xs - 1"
  by (simp add: splice1_def)

lemma map_list_update_same: "f p = f (xs ! i) \<Longrightarrow> map f (xs[i := p]) = map f xs"
  by (induction xs arbitrary: i) (auto simp: nth_Cons split: nat.splits)

lemma subseq_distinct: "subseq xs ys \<Longrightarrow> distinct ys \<Longrightarrow> distinct xs"
  by (metis in_set_subseqs subseqs_distinctD)

lemma room_overwrite [simp]:
  "(r::room)\<lparr>players := ps, status := st\<rparr> = \<lparr>players = ps, status = st\<rparr>"
  by (cases r) simp

lemma room_overwrite_players:
  "(r::room)\<lparr>players := ps\<rparr> = \<lparr>players = ps, status = status r\<rparr>"
  by (cases r) simp

lemma checkAndStartGame_unready:
  assumes "map_of rs roomId = Some room" and "\<not> list_all isReady (players room)"
  shows "checkAndStartGame now roomId rs = Inr (rs, [])"
  using assms by (simp add: checkAndStartGame_def)

lemma checkAndStartGame_playing:
  assumes "map_of rs roomId = Some room" and "status room = PLAYING"
  shows "checkAndStartGame now roomId rs = Inr (rs, [])"
  using assms by (simp add: checkAndStartGame_def)

subsection \<open>The auto-start check\<close>

text \<open>
  Claim C2. For a room of the registry, \<open>checkAndStartGame\<close> sets the status to \<open>PLAYING\<close>
  exactly when the room has \<open>REQUIRED_PLAYERS\<close> players, every player is ready and the
  status is not \<open>PLAYING\<close> already; it then emits one \<open>start_game\<close> to the room, carrying
  \<open>now + 3000\<close>, and leaves every other room and the order of the rooms as they were. In
  every other case, in particular when the room is \<open>PLAYING\<close>, it changes nothing and emits
  nothing. Running the check again on its own result changes nothing and emits nothing.
\<close>

theorem checkAndStartGame_auto_start:
  assumes "map_of rs roomId = Some room"
  shows "\<exists>rs' es. checkAndStartGame now roomId rs = Inr (rs', es) \<and>
     (if length (players room) = REQUIRED_PLAYERS \<and> (\<forall>p\<in>set (players room). isReady p) \<and>
         status room \<noteq> PLAYING
      then map_of rs' = (map_of rs)(roomId \<mapsto> room\<lparr>status := PLAYING\<rparr>) \<and>
           map fst rs' = map fst rs \<and>
           es = [io_to_emit roomId (start_game (now + 3000))]
      else rs' = rs \<and> es = []) \<and>
     (\<forall>now'. checkAndStartGame now' roomId rs' = Inr (rs', []))"
proof (cases "length (players room) = REQUIRED_PLAYERS \<and> (\<forall>p\<in>set (players room). isReady p) \<and>
         status room \<noteq> PLAYING")
  case True
  let ?rs' = "rooms_set roomId (room\<lparr>status := PLAYING\<rparr>) rs"
  have run: "checkAndStartGame now roomId rs = Inr (?rs', [io_to_emit roomId (start_game (now + 3000))])"
    using assms True by (simp add: checkAndStartGame_def list_all_iff)
  have m: "map_of ?rs' = (map_of rs)(roomId \<mapsto> room\<lparr>status := PLAYING\<rparr>)"
    using assms by (rule map_of_rooms_set)
  then have "map_of ?rs' roomId = Some (room\<lparr>status := PLAYING\<rparr>)"
    by simp
  then have again: "checkAndStartGame now' roomId ?rs' = Inr (?rs', [])" for now'
    by (rule checkAndStartGame_playing) simp
  from run m again True show ?thesis
    by simp
next
  case False
  then have run: "checkAndStartGame now' roomId rs = Inr (rs, [])" for now'
    using assms by (auto simp: checkAndStartGame_def list_all_iff)
  with False show ?thesis
    by simp
qed

theorem checkAndStartGame_auto_start_witness:
  "map_of [(''R'', room_ab True True LOBBY)] ''R'' = Some (room_ab True True LOBBY) \<and>
   checkAndStartGame 1000 ''R'' [(''R'', room_ab True True LOBBY)] =
     Inr ([(''R'', room_ab True True PLAYING)], [io_to_emit ''R'' (start_game 4000)]) \<and>
   checkAndStartGame 2000 ''R'' [(''R'', room_ab True True PLAYING)] =
     Inr ([(''R'', room_ab True True PLAYING)], [])"
  using checkAndStartGame_auto_start [of "[(''R'', room_ab True True LOBBY)]" "''R''"
      "room_ab True True LOBBY" 1000]
  by (simp add: checkAndStartGame_def rooms_get_def room_ab_def REQUIRED_PLAYERS_def)

subsection \<open>Joining\<close>

text \<open>
  Claim C7. A \<open>join_room\<close> for a room whose status is \<open>PLAYING\<close> is rejected: the only effect
  is an \<open>error_msg\<close> on the requester's own connection, and the registry (this room and
  every other one) is returned as it was.
\<close>

theorem join_room_playing_rejected:
  assumes "map_of rs roomId = Some room" and "status room = PLAYING"
  shows "join_room now sid roomId nm rs =
    Inr (rs, [socket_emit sid (error_msg ''Mission already in progress. Access Denied.'')])"
  using assms by (simp add: join_room_def)

theorem join_room_playing_rejected_witness:
  "map_of [(''R'', room_ab True True PLAYING)] ''R'' = Some (room_ab True True PLAYING) \<and>
   status (room_ab True True PLAYING) = PLAYING \<and>
   join_room 5 ''c'' ''R'' None [(''R'', room_ab True True PLAYING)] =
     Inr ([(''R'', room_ab True True PLAYING)],
          [socket_emit ''c'' (error_msg ''Mission already in progress. Access Denied.'')])"
  using join_room_playing_rejected [of "[(''R'', room_ab True True PLAYING)]" "''R''"
      "room_ab True True PLAYING" 5 "''c''" None]
  by (simp add: room_ab_def)

text \<open>
  Claim C10. A \<open>join_room\<close> for a room whose status is \<open>GAME_OVER\<close> and that has fewer than
  \<open>REQUIRED_PLAYERS\<close> players is accepted: the new player (not ready, score 0, status
  \<open>ALIVE\<close>) is appended to the room's players, the connection joins the channel and the
  new list is broadcast; no error is sent. The status of the room stays \<open>GAME_OVER\<close>.
\<close>

theorem join_room_game_over_accepted:
  assumes "map_of rs roomId = Some room" and "status room = GAME_OVER"
    and "length (players room) < REQUIRED_PLAYERS"
  shows "\<exists>rs'. join_room now sid roomId nm rs =
       Inr (rs', [socket_join sid roomId,
                  io_to_emit roomId (room_update (players room @ [newPlayer sid nm]))]) \<and>
     map_of rs' = (map_of rs)(roomId \<mapsto> room\<lparr>players := players room @ [newPlayer sid nm]\<rparr>) \<and>
     map fst rs' = map fst rs \<and>
     id_p (newPlayer sid nm) = sid \<and> \<not> isReady (newPlayer sid nm) \<and>
     score (newPlayer sid nm) = 0 \<and> status_p (newPlayer sid nm) = ''ALIVE''"
proof -
  let ?ps = "players room @ [newPlayer sid nm]"
  let ?rs' = "rooms_set roomId (room\<lparr>players := ?ps\<rparr>) rs"
  have m: "map_of ?rs' = (map_of rs)(roomId \<mapsto> room\<lparr>players := ?ps\<rparr>)"
    using assms(1) by (rule map_of_rooms_set)
  then have "map_of ?rs' roomId = Some (room\<lparr>players := ?ps\<rparr>)"
    by simp
  then have "checkAndStartGame now roomId ?rs' = Inr (?rs', [])"
    by (rule checkAndStartGame_unready) (simp add: newPlayer_def)
  then have "join_room now sid roomId nm rs =
      Inr (?rs', [socket_join sid roomId, io_to_emit roomId (room_update ?ps)])"
    using assms by (simp add: join_room_def Let_def)
  with m show ?thesis
    by (simp add: newPlayer_def)
qed

theorem join_room_game_over_accepted_witness:
  "map_of [(''R'', \<lparr>players = [], status = GAME_OVER\<rparr>)] ''R'' = Some \<lparr>players = [], status = GAME_OVER\<rparr> \<and>
   length (players \<lparr>players = [], status = GAME_OVER\<rparr>) < REQUIRED_PLAYERS \<and>
   join_room 5 ''c'' ''R'' (Some ''Cat'') [(''R'', \<lparr>players = [], status = GAME_OVER\<rparr>)] =
     Inr ([(''R'', \<lparr>players = [\<lparr>id_p = ''c'', name = ''Cat'', isReady = False, score = 0,
                                 status_p = ''ALIVE''\<rparr>], status = GAME_OVER\<rparr>)],
          [socket_join ''c'' ''R'',
           io_to_emit ''R'' (room_update [\<lparr>id_p = ''c'', name = ''Cat'', isReady = False, score = 0,
                                 status_p = ''ALIVE''\<rparr>])])"
  using join_room_game_over_accepted [of "[(''R'', \<lparr>players = [], status = GAME_OVER\<rparr>)]" "''R''"
      "\<lparr>players = [], status = GAME_OVER\<rparr>" 5 "''c''" "Some ''Cat''"]
  by (simp add: REQUIRED_PLAYERS_def join_room_def rooms_get_def checkAndStartGame_def newPlayer_def Let_def)

subsection \<open>Player updates and the end of a session\<close>

text \<open>
  Claim C3. An \<open>update_player\<close> from a player of the room writes the score and the status
  of that player (the first entry with the sender's id). If the room is \<open>PLAYING\<close> and
  every player's status is then \<open>DEAD\<close> or \<open>FINISHED\<close>, the room becomes \<open>GAME_OVER\<close>, one
  \<open>force_game_over\<close> with the player list and \<open>now + LEADERBOARD_DURATION\<close> is broadcast and
  one reset action is scheduled, \<open>LEADERBOARD_DURATION\<close> later. Otherwise the status of the
  room is kept, no \<open>force_game_over\<close> is sent and nothing is scheduled.
\<close>

theorem update_player_game_over:
  assumes "map_of (rooms s) roomId = Some room"
    and "findIndex (\<lambda>p. id_p p = sid) (players room) = Some i"
  shows "let p = (players room ! i)\<lparr>score := sc, status_p := st\<rparr>;
             ps = (players room)[i := p]
         in \<exists>s' es. step (Receive now (Update_player sid roomId sc st)) s = Inr (s', es) \<and>
           (if status room = PLAYING \<and> (\<forall>q\<in>set ps. status_p q = ''DEAD'' \<or> status_p q = ''FINISHED'')
            then map_of (rooms s') = (map_of (rooms s))(roomId \<mapsto> \<lparr>players = ps, status = GAME_OVER\<rparr>) \<and>
                 es = [io_to_emit roomId (player_updated p),
                       io_to_emit roomId (force_game_over ps (now + LEADERBOARD_DURATION)),
                       setTimeout roomId LEADERBOARD_DURATION] \<and>
                 timers s' = timers s @ [roomId]
            else map_of (rooms s') = (map_of (rooms s))(roomId \<mapsto> \<lparr>players = ps, status = status room\<rparr>) \<and>
                 es = [io_to_emit roomId (player_updated p)] \<and>
                 timers s' = timers s)"
proof -
  define p where "p = (players room ! i)\<lparr>score := sc, status_p := st\<rparr>"
  define ps where "ps = (players room)[i := p]"
  show ?thesis
  proof (cases "status room = PLAYING \<and> (\<forall>q\<in>set ps. status_p q = ''DEAD'' \<or> status_p q = ''FINISHED'')")
    case True
    let ?room' = "\<lparr>players = ps, status = GAME_OVER\<rparr>"
    have "update_player now sid roomId sc st (rooms s) =
        Inr (rooms_set roomId ?room' (rooms s),
             [io_to_emit roomId (player_updated p),
              io_to_emit roomId (force_game_over ps (now + LEADERBOARD_DURATION)),
              setTimeout roomId LEADERBOARD_DURATION])"
      using assms True
      by (simp add: update_player_def Let_def allDone_def list_all_iff p_def ps_def)
    moreover have "map_of (rooms_set roomId ?room' (rooms s)) = (map_of (rooms s))(roomId \<mapsto> ?room')"
      using assms(1) by (rule map_of_rooms_set)
    ultimately show ?thesis
      using True by (simp add: Let_def p_def ps_def)
  next
    case False
    let ?room' = "\<lparr>players = ps, status = status room\<rparr>"
    have "update_player now sid roomId sc st (rooms s) =
        Inr (rooms_set roomId ?room' (rooms s), [io_to_emit roomId (player_updated p)])"
      using assms False
      by (auto simp: update_player_def Let_def allDone_def list_all_iff p_def ps_def room_overwrite_players)
    moreover have "map_of (rooms_set roomId ?room' (rooms s)) = (map_of (rooms s))(roomId \<mapsto> ?room')"
      using assms(1) by (rule map_of_rooms_set)
    ultimately show ?thesis
      using False by (simp add: Let_def p_def ps_def)
  qed
qed


theorem update_player_game_over_witness:
  "map_of (rooms \<lparr>rooms = [(''R'', \<lparr>players = [ann True 7 ''FINISHED'', bob True 0 ''ALIVE''],
                                   status = PLAYING\<rparr>)], timers = []\<rparr>) ''R'' =
     Some \<lparr>players = [ann True 7 ''FINISHED'', bob True 0 ''ALIVE''], status = PLAYING\<rparr> \<and>
   findIndex (\<lambda>p. id_p p = ''b'') [ann True 7 ''FINISHED'', bob True 0 ''ALIVE''] = Some 1 \<and>
   step (Receive 500 (Update_player ''b'' ''R'' 3 ''DEAD''))
     \<lparr>rooms = [(''R'', \<lparr>players = [ann True 7 ''FINISHED'', bob True 0 ''ALIVE''],
                        status = PLAYING\<rparr>)], timers = []\<rparr> =
     Inr (\<lparr>rooms = [(''R'', \<lparr>players = [ann True 7 ''FINISHED'', bob True 3 ''DEAD''],
                             status = GAME_OVER\<rparr>)], timers = [''R'']\<rparr>,
          [io_to_emit ''R'' (player_updated (bob True 3 ''DEAD'')),
           io_to_emit ''R'' (force_game_over [ann True 7 ''FINISHED'', bob True 3 ''DEAD''] 10500),
           setTimeout ''R'' 10000])"
  using update_player_game_over [where
      s = "\<lparr>rooms = [(''R'', \<lparr>players = [ann True 7 ''FINISHED'', bob True 0 ''ALIVE''],
                             status = PLAYING\<rparr>)], timers = []\<rparr>"
      and roomId = "''R''"
      and room = "\<lparr>players = [ann True 7 ''FINISHED'', bob True 0 ''ALIVE''], status = PLAYING\<rparr>"
      and sid = "''b''" and i = 1 and sc = 3 and st = "''DEAD''" and now = 500]
  by (simp add: ann_def bob_def update_player_def rooms_get_def allDone_def Let_def
      LEADERBOARD_DURATION_def)

subsection \<open>The reset action\<close>

text \<open>
  Claim C4. When the reset action fires on a room of the registry whose status is
  \<open>GAME_OVER\<close>: with a non-empty player list the room is left with the player of index 0
  alone, not ready, with score 0 and status \<open>ALIVE\<close>, the status of the room is \<open>LOBBY\<close>,
  and every other player of the list has been sent \<open>kicked\<close>; with an empty player list the
  room is deleted from the registry.
\<close>

theorem reset_action_resets:
  assumes "map_of rs roomId = Some room" and "status room = GAME_OVER"
  shows "\<exists>rs' es. reset_action roomId rs = (rs', es) \<and>
     (case players room of
        captain # others \<Rightarrow>
          map_of rs' = (map_of rs)(roomId \<mapsto>
            \<lparr>players = [captain\<lparr>isReady := False, score := 0, status_p := ''ALIVE''\<rparr>],
             status = LOBBY\<rparr>) \<and>
          (\<forall>p\<in>set others. io_to_emit (id_p p) kicked \<in> set es) \<and>
          es = map (\<lambda>p. io_to_emit (id_p p) kicked) others @
               [io_to_emit roomId
                 (room_update [captain\<lparr>isReady := False, score := 0, status_p := ''ALIVE''\<rparr>])]
      | [] \<Rightarrow> map_of rs' = (map_of rs)(roomId := None) \<and> roomId \<notin> fst ` set rs' \<and> es = [])"
proof (cases "players room")
  case Nil
  with assms have "reset_action roomId rs = (rooms_delete roomId rs, [])"
    by (simp add: reset_action_def)
  moreover have "roomId \<notin> fst ` set (rooms_delete roomId rs)"
    by (auto simp: rooms_delete_def)
  ultimately show ?thesis
    using Nil by (simp add: map_of_rooms_delete)
next
  case (Cons captain others)
  let ?c = "captain\<lparr>isReady := False, score := 0, status_p := ''ALIVE''\<rparr>"
  let ?room' = "\<lparr>players = [?c], status = LOBBY\<rparr>"
  have "reset_action roomId rs =
      (rooms_set roomId ?room' rs,
       map (\<lambda>p. io_to_emit (id_p p) kicked) others @ [io_to_emit roomId (room_update [?c])])"
    using assms Cons by (simp add: reset_action_def Let_def)
  moreover have "map_of (rooms_set roomId ?room' rs) = (map_of rs)(roomId \<mapsto> ?room')"
    using assms(1) by (rule map_of_rooms_set)
  ultimately show ?thesis
    using Cons by simp
qed


theorem reset_action_resets_witness:
  "map_of [(''R'', room_ab True True GAME_OVER)] ''R'' = Some (room_ab True True GAME_OVER) \<and>
   status (room_ab True True GAME_OVER) = GAME_OVER \<and>
   reset_action ''R'' [(''R'', room_ab True True GAME_OVER)] =
     ([(''R'', \<lparr>players = [\<lparr>id_p = ''a'', name = ''Ann'', isReady = False, score = 0,
                             status_p = ''ALIVE''\<rparr>], status = LOBBY\<rparr>)],
      [io_to_emit ''b'' kicked,
       io_to_emit ''R'' (room_update [\<lparr>id_p = ''a'', name = ''Ann'', isReady = False, score = 0,
                             status_p = ''ALIVE''\<rparr>])])"
  using reset_action_resets [of "[(''R'', room_ab True True GAME_OVER)]" "''R''"
      "room_ab True True GAME_OVER"]
  by (simp add: room_ab_def reset_action_def rooms_get_def Let_def)

text \<open>
  Claim C5. When the reset action fires for a room that is not in the registry, or that is
  in the registry with a status other than \<open>GAME_OVER\<close>, the registry is returned as it was
  and nothing is emitted.
\<close>

theorem reset_action_guard:
  assumes "map_of rs roomId = None \<or>
    (\<exists>room. map_of rs roomId = Some room \<and> status room \<noteq> GAME_OVER)"
  shows "reset_action roomId rs = (rs, [])"
  using assms by (auto simp: reset_action_def rooms_get_def)

theorem reset_action_guard_witness:
  "map_of [(''R'', room_ab True True PLAYING)] ''Q'' = None \<and>
   reset_action ''Q'' [(''R'', room_ab True True PLAYING)] = ([(''R'', room_ab True True PLAYING)], []) \<and>
   map_of [(''R'', room_ab True True PLAYING)] ''R'' = Some (room_ab True True PLAYING) \<and>
   status (room_ab True True PLAYING) \<noteq> GAME_OVER \<and>
   reset_action ''R'' [(''R'', room_ab True True PLAYING)] = ([(''R'', room_ab True True PLAYING)], [])"
  using reset_action_guard [of "[(''R'', room_ab True True PLAYING)]" "''Q''"]
    reset_action_guard [of "[(''R'', room_ab True True PLAYING)]" "''R''"]
  by (simp add: room_ab_def)

subsection \<open>Kicking\<close>

text \<open>
  Claim C6, as stated, fails: the captain asking to kick an id that is not in the room
  changes nothing.
\<close>

theorem kick_player_absent_target_counterexample:
  "length (players (room_ab False False LOBBY)) > 0 \<and>
   id_p (players (room_ab False False LOBBY) ! 0) = ''a'' \<and> ''z'' \<noteq> ''a'' \<and>
   kick_player ''a'' ''R'' ''z'' [(''R'', room_ab False False LOBBY)] =
     Inr ([(''R'', room_ab False False LOBBY)], [])"
  by (simp add: room_ab_def kick_player_def rooms_get_def)

text \<open>
  Claim C6, amended. A \<open>kick_player\<close> removes a player, sends \<open>kicked\<close> to the target and
  broadcasts the new list if and only if the requester's id is that of the player of
  index 0, the target is not the requester, and the target is the id of a player of the
  room (the first such player is the one removed). In every other case the registry is
  unchanged and nothing is emitted.
\<close>

theorem kick_player_succeeds_iff:
  assumes "map_of rs roomId = Some room"
  shows "\<exists>rs' es. kick_player sid roomId targetId rs = Inr (rs', es) \<and>
     (if length (players room) > 0 \<and> id_p (players room ! 0) = sid \<and> targetId \<noteq> sid \<and>
         targetId \<in> id_p ` set (players room)
      then \<exists>i. findIndex (\<lambda>p. id_p p = targetId) (players room) = Some i \<and>
             map_of rs' = (map_of rs)(roomId \<mapsto> room\<lparr>players := splice1 i (players room)\<rparr>) \<and>
             map fst rs' = map fst rs \<and>
             es = [io_to_emit targetId kicked,
                   io_to_emit roomId (room_update (splice1 i (players room)))]
      else rs' = rs \<and> es = [])"
proof (cases "findIndex (\<lambda>p. id_p p = targetId) (players room)")
  case None
  then have "targetId \<notin> id_p ` set (players room)"
    by (auto simp: findIndex_None)
  with assms None show ?thesis
    by (simp add: kick_player_def)
next
  case (Some i)
  then have "i < length (players room)" and "id_p (players room ! i) = targetId"
    by (auto dest: findIndex_Some)
  then have mem: "targetId \<in> id_p ` set (players room)"
    by (metis imageI nth_mem)
  have "map_of (rooms_set roomId (room\<lparr>players := splice1 i (players room)\<rparr>) rs) =
      (map_of rs)(roomId \<mapsto> room\<lparr>players := splice1 i (players room)\<rparr>)"
    using assms by (rule map_of_rooms_set)
  with assms Some mem show ?thesis
    by (simp add: kick_player_def Let_def)
qed

theorem kick_player_succeeds_iff_witness:
  "map_of [(''R'', room_ab False False LOBBY)] ''R'' = Some (room_ab False False LOBBY) \<and>
   kick_player ''a'' ''R'' ''b'' [(''R'', room_ab False False LOBBY)] =
     Inr ([(''R'', \<lparr>players = [\<lparr>id_p = ''a'', name = ''Ann'', isReady = False, score = 0,
                                 status_p = ''ALIVE''\<rparr>], status = LOBBY\<rparr>)],
          [io_to_emit ''b'' kicked,
           io_to_emit ''R'' (room_update [\<lparr>id_p = ''a'', name = ''Ann'', isReady = False,
                                 score = 0, status_p = ''ALIVE''\<rparr>])]) \<and>
   kick_player ''b'' ''R'' ''a'' [(''R'', room_ab False False LOBBY)] =
     Inr ([(''R'', room_ab False False LOBBY)], [])"
  using kick_player_succeeds_iff [of "[(''R'', room_ab False False LOBBY)]" "''R''"
      "room_ab False False LOBBY" "''a''" "''b''"]
    kick_player_succeeds_iff [of "[(''R'', room_ab False False LOBBY)]" "''R''"
      "room_ab False False LOBBY" "''b''" "''a''"]
  by (simp add: room_ab_def kick_player_def rooms_get_def splice1_def Let_def)

subsection \<open>The keys of the registry\<close>

text \<open>
  An object has each own key once. The registry of every reachable state has pairwise
  distinct keys, which is the assumption on the registry in the theorem on \<open>disconnect\<close>.
\<close>

lemma keys_rooms_insert:
  "k \<notin> fst ` set rs \<Longrightarrow> distinct (map fst rs) \<Longrightarrow> distinct (map fst (rooms_insert k r rs))"
proof (induction rs)
  case Nil
  then show ?case by simp
next
  case (Cons kr rs)
  have "fst ` set (rooms_insert k r rs) = insert k (fst ` set rs)"
    by simp
  with Cons show ?case
    by (cases kr) auto
qed

lemma keys_rooms_delete: "distinct (map fst rs) \<Longrightarrow> distinct (map fst (rooms_delete k rs))"
  by (simp add: rooms_delete_def distinct_map_filter)

lemma keys_disconnect:
  "disconnect sid rs = (rs', es) \<Longrightarrow> subseq (map fst rs') (map fst rs)"
proof (induction rs arbitrary: rs' es)
  case Nil
  then show ?case by simp
next
  case (Cons kr rs)
  obtain k0 r0 where kr: "kr = (k0, r0)" by (cases kr)
  obtain rest' es0 where rest: "disconnect sid rs = (rest', es0)" by (cases "disconnect sid rs")
  from Cons.IH [OF rest] Cons.prems kr rest show ?case
    by (auto simp: Let_def split: option.splits if_splits)
qed

lemma keys_checkAndStartGame:
  "checkAndStartGame now roomId rs = Inr (rs', es) \<Longrightarrow> map fst rs' = map fst rs"
  by (auto simp: checkAndStartGame_def Let_def split: lookup.splits if_splits)

lemma keys_handler:
  assumes "distinct (map fst rs)" and "handler now req rs = Inr (rs', es)"
  shows "distinct (map fst rs')"
proof (cases req)
  case (Join_room sid roomId nm)
  define rs1 where "rs1 = (if rooms_get rs roomId = Absent
    then rooms_insert roomId \<lparr>players = [], status = LOBBY\<rparr> rs else rs)"
  have "rooms_get rs roomId = Absent \<Longrightarrow> roomId \<notin> fst ` set rs"
    by (auto simp: rooms_get_def map_of_eq_None_iff split: option.splits if_splits)
  with assms(1) have d1: "distinct (map fst rs1)"
    by (simp add: rs1_def keys_rooms_insert)
  from assms(2) Join_room have "map fst rs' = map fst rs1"
    by (auto simp: join_room_def rs1_def [symmetric] Let_def
        split: lookup.splits if_splits sum.splits dest!: keys_checkAndStartGame)
  with d1 show ?thesis by simp
next
  case (Toggle_ready sid roomId)
  with assms(2) have "map fst rs' = map fst rs"
    by (auto simp: toggle_ready_def Let_def
        split: lookup.splits option.splits sum.splits dest!: keys_checkAndStartGame)
  with assms(1) show ?thesis by simp
next
  case (Kick_player sid roomId targetId)
  with assms(2) have "map fst rs' = map fst rs"
    by (auto simp: kick_player_def Let_def split: lookup.splits option.splits if_splits)
  with assms(1) show ?thesis by simp
next
  case (Update_player sid roomId sc st)
  with assms(2) have "map fst rs' = map fst rs"
    by (auto simp: update_player_def Let_def split: lookup.splits option.splits if_splits)
  with assms(1) show ?thesis by simp
next
  case (Disconnect sid)
  with assms(2) have "subseq (map fst rs') (map fst rs)"
    by (simp add: keys_disconnect)
  with assms(1) show ?thesis by (rule subseq_distinct [rotated])
qed

lemma keys_reset_action:
  assumes "distinct (map fst rs)" and "reset_action roomId rs = (rs', es)"
  shows "distinct (map fst rs')"
  using assms
  by (auto simp: reset_action_def Let_def keys_rooms_delete
      split: lookup.splits if_splits list.splits)

lemma reachable_keys_distinct: "reachable s \<Longrightarrow> distinct (map fst (rooms s))"
proof (induction rule: reachable.induct)
  case reachable_initial
  show ?case by (simp add: initial_def)
next
  case (reachable_step s a s' es)
  show ?case
  proof (cases a)
    case (Receive now req)
    with reachable_step.hyps(2) obtain rs where
      "handler now req (rooms s) = Inr (rs, es)" "rooms s' = rs"
      by (auto split: sum.splits)
    with reachable_step.IH show ?thesis
      by (auto dest: keys_handler)
  next
    case Timer_fires
    with reachable_step.hyps(2) reachable_step.IH show ?thesis
      by (auto split: list.splits prod.splits dest: keys_reset_action)
  qed
qed

subsection \<open>Disconnecting\<close>

lemma disconnect_absent:
  assumes "roomId \<notin> fst ` set rs" and "disconnect sid rs = (rs', es)"
  shows "map_of rs' roomId = None \<and> sent_to roomId es = []"
  using assms
proof (induction rs arbitrary: rs' es)
  case Nil
  then show ?case by simp
next
  case (Cons kr rs)
  obtain k0 r0 where kr: "kr = (k0, r0)" by (cases kr)
  obtain rest' es0 where rest: "disconnect sid rs = (rest', es0)" by (cases "disconnect sid rs")
  from Cons.prems(1) kr have "roomId \<notin> fst ` set rs" and ne: "k0 \<noteq> roomId" by auto
  from Cons.IH [OF this(1) rest] have "map_of rest' roomId = None" "sent_to roomId es0 = []"
    by auto
  with Cons.prems(2) kr rest ne show ?case
    by (auto simp: Let_def split: option.splits if_splits)
qed

lemma disconnect_effects:
  assumes "disconnect sid rs = (rs', es)"
  shows "\<forall>e\<in>set es. \<exists>c ps. e = io_to_emit c (room_update ps)"
  using assms
proof (induction rs arbitrary: rs' es)
  case Nil
  then show ?case by simp
next
  case (Cons kr rs)
  obtain k0 r0 where kr: "kr = (k0, r0)" by (cases kr)
  obtain rest' es0 where rest: "disconnect sid rs = (rest', es0)" by (cases "disconnect sid rs")
  from Cons.IH [OF rest] Cons.prems kr rest show ?case
    by (auto simp: Let_def split: option.splits if_splits)
qed

lemma scheduled_emits: "\<forall>e\<in>set es. \<exists>c ev. e = io_to_emit c ev \<Longrightarrow> scheduled es = []"
  by (induction es) auto

lemma disconnect_room:
  assumes "distinct (map fst rs)" and "map_of rs roomId = Some room"
    and "disconnect sid rs = (rs', es)"
  shows "case findIndex (\<lambda>p. id_p p = sid) (players room) of
        None \<Rightarrow> map_of rs' roomId = Some room \<and> sent_to roomId es = []
      | Some i \<Rightarrow>
          if splice1 i (players room) = [] then map_of rs' roomId = None \<and> sent_to roomId es = []
          else map_of rs' roomId = Some (room\<lparr>players := splice1 i (players room)\<rparr>) \<and>
               sent_to roomId es = [room_update (splice1 i (players room))]"
  using assms
proof (induction rs arbitrary: rs' es)
  case Nil
  then show ?case by simp
next
  case (Cons kr rs)
  obtain k0 r0 where kr: "kr = (k0, r0)" by (cases kr)
  obtain rest' es0 where rest: "disconnect sid rs = (rest', es0)" by (cases "disconnect sid rs")
  show ?case
  proof (cases "k0 = roomId")
    case True
    with Cons.prems(1,2) kr have "roomId \<notin> fst ` set rs" and "r0 = room" by auto
    from disconnect_absent [OF this(1) rest] Cons.prems(3) kr rest True \<open>r0 = room\<close>
    show ?thesis
      by (auto simp: Let_def split: option.splits if_splits)
  next
    case False
    with Cons.prems(1,2) kr have "distinct (map fst rs)" and "map_of rs roomId = Some room"
      by auto
    from Cons.IH [OF this rest] Cons.prems(3) kr rest False show ?thesis
      by (auto simp: Let_def split: option.splits if_splits)
  qed
qed

lemma splice1_distinct_absent:
  assumes "distinct (map f xs)" and "i < length xs"
  shows "f (xs ! i) \<notin> f ` set (splice1 i xs)"
proof -
  have "xs = take i xs @ xs ! i # drop (Suc i) xs"
    using assms(2) by (rule id_take_nth_drop)
  then have "map f xs = map f (take i xs) @ f (xs ! i) # map f (drop (Suc i) xs)"
    by (metis list.simps(9) map_append)
  with assms(1) have "distinct (map f (take i xs) @ f (xs ! i) # map f (drop (Suc i) xs))"
    by simp
  then show ?thesis
    by (auto simp: splice1_def)
qed

text \<open>
  Claim C8, as stated, fails: \<open>disconnect\<close> removes one entry per room, the first with the
  connection's id. A connection that joined a room twice and disconnects is still listed
  in the room, and the room is kept.
\<close>

theorem disconnect_duplicate_counterexample:
  "run [Receive 0 (Join_room ''a'' ''R'' (Some ''Ann'')), Receive 1 (Join_room ''a'' ''R'' (Some ''Ann'')),
        Receive 2 (Disconnect ''a'')] initial =
     Inr \<lparr>rooms = [(''R'', \<lparr>players = [ann False 0 ''ALIVE''], status = LOBBY\<rparr>)], timers = []\<rparr> \<and>
   disconnect ''a'' [(''R'', \<lparr>players = [ann False 0 ''ALIVE'', ann False 0 ''ALIVE''],
                               status = LOBBY\<rparr>)] =
     ([(''R'', \<lparr>players = [ann False 0 ''ALIVE''], status = LOBBY\<rparr>)],
      [io_to_emit ''R'' (room_update [ann False 0 ''ALIVE''])]) \<and>
   id_p (ann False 0 ''ALIVE'') = ''a''"
  by (simp add: ann_def splice1_def initial_def join_room_def checkAndStartGame_def rooms_get_def
      Object_prototype_keys_def newPlayer_def enumerated_before_def is_array_index_def Let_def
      REQUIRED_PLAYERS_def)

text \<open>
  Claim C8, amended. On \<open>disconnect\<close>, in every room that has a player with the
  connection's id the first such entry, and only that one, is removed (a room without one
  is left as it is); the id is gone from the room if the ids of its players were pairwise
  distinct. If no player is left the room is deleted from the registry and nothing is sent
  to it; otherwise the shorter list is broadcast to the room, once, and the room keeps its
  status with fewer players than before. The handler emits nothing but \<open>room_update\<close>
  broadcasts: no \<open>start_game\<close>, no \<open>force_game_over\<close>, and it schedules nothing. So a room
  of \<open>REQUIRED_PLAYERS\<close> players that is \<open>PLAYING\<close> stays \<open>PLAYING\<close> with fewer players, as
  the run in the witness shows.
\<close>

theorem disconnect_removes_first_entry:
  assumes "distinct (map fst rs)" and "map_of rs roomId = Some room"
  shows "\<exists>rs' es. disconnect sid rs = (rs', es) \<and>
     (case findIndex (\<lambda>p. id_p p = sid) (players room) of
        None \<Rightarrow> sid \<notin> id_p ` set (players room) \<and>
                map_of rs' roomId = Some room \<and> sent_to roomId es = []
      | Some i \<Rightarrow>
          i < length (players room) \<and> id_p (players room ! i) = sid \<and>
          (\<forall>j<i. id_p (players room ! j) \<noteq> sid) \<and>
          (distinct (map id_p (players room)) \<longrightarrow> sid \<notin> id_p ` set (splice1 i (players room))) \<and>
          (if splice1 i (players room) = [] then map_of rs' roomId = None \<and> sent_to roomId es = []
           else map_of rs' roomId = Some (room\<lparr>players := splice1 i (players room)\<rparr>) \<and>
                sent_to roomId es = [room_update (splice1 i (players room))] \<and>
                length (splice1 i (players room)) < length (players room))) \<and>
     (\<forall>e\<in>set es. \<exists>c ps. e = io_to_emit c (room_update ps)) \<and> scheduled es = []"
proof -
  obtain rs' es where d: "disconnect sid rs = (rs', es)" by (cases "disconnect sid rs")
  have eff: "\<forall>e\<in>set es. \<exists>c ps. e = io_to_emit c (room_update ps)"
    using d by (rule disconnect_effects)
  then have sch: "scheduled es = []"
    by (intro scheduled_emits) blast
  show ?thesis
  proof (cases "findIndex (\<lambda>p. id_p p = sid) (players room)")
    case None
    then have "sid \<notin> id_p ` set (players room)"
      by (auto simp: findIndex_None)
    with disconnect_room [OF assms d] d eff sch None show ?thesis
      by simp
  next
    case (Some i)
    from findIndex_Some [OF Some]
    have first: "i < length (players room)" "id_p (players room ! i) = sid"
      "\<forall>j<i. id_p (players room ! j) \<noteq> sid"
      by auto
    have len: "length (splice1 i (players room)) < length (players room)"
      using first(1) by (auto simp: length_splice1)
    have gone: "sid \<notin> id_p ` set (splice1 i (players room))"
      if "distinct (map id_p (players room))"
      using splice1_distinct_absent [OF that first(1)] first(2) by simp
    from disconnect_room [OF assms d] d eff sch Some first len gone show ?thesis
      by (simp split: if_splits)
  qed
qed

theorem disconnect_removes_first_entry_witness:
  "run [Receive 0 (Join_room ''a'' ''R'' (Some ''Ann'')), Receive 1 (Join_room ''b'' ''R'' (Some ''Bob'')),
        Receive 2 (Toggle_ready ''a'' ''R''), Receive 3 (Toggle_ready ''b'' ''R'')] initial =
     Inr \<lparr>rooms = [(''R'', room_ab True True PLAYING)], timers = []\<rparr> \<and>
   distinct (map fst [(''R'', room_ab True True PLAYING)]) \<and>
   map_of [(''R'', room_ab True True PLAYING)] ''R'' = Some (room_ab True True PLAYING) \<and>
   disconnect ''b'' [(''R'', room_ab True True PLAYING)] =
     ([(''R'', \<lparr>players = [ann True 0 ''ALIVE''], status = PLAYING\<rparr>)],
      [io_to_emit ''R'' (room_update [ann True 0 ''ALIVE''])]) \<and>
   distinct (map id_p (players (room_ab True True PLAYING))) \<and>
   ''b'' \<notin> set (map id_p [ann True 0 ''ALIVE'']) \<and>
   length [ann True 0 ''ALIVE''] < REQUIRED_PLAYERS"
  using disconnect_removes_first_entry [of "[(''R'', room_ab True True PLAYING)]" "''R''"
      "room_ab True True PLAYING" "''b''"]
  by (simp add: room_ab_def ann_def splice1_def REQUIRED_PLAYERS_def initial_def join_room_def
      toggle_ready_def checkAndStartGame_def rooms_get_def Object_prototype_keys_def newPlayer_def
      enumerated_before_def is_array_index_def Let_def)

subsection \<open>Where the players of a room come from\<close>

text \<open>
  After any handler, the ids of a room's players are a subsequence of the ids of a room
  that was there before under the same key, or the room is empty, or the room is the one
  just joined and has one more player at the end than it had.
\<close>

lemma rooms_set_provenance:
  assumes "(k, r') \<in> set (rooms_set k0 v rs)"
  shows "(k, r') \<in> set rs \<or> (k = k0 \<and> r' = v)"
  using assms set_rooms_set [of k0 v rs] by auto

lemma checkAndStartGame_provenance:
  assumes "checkAndStartGame now roomId rs = Inr (rs', es)" and "(k, r') \<in> set rs'"
  shows "\<exists>r. (k, r) \<in> set rs \<and> players r' = players r"
proof (cases "rooms_get rs roomId")
  case Absent
  with assms show ?thesis by (auto simp: checkAndStartGame_def)
next
  case Inherited
  with assms show ?thesis by (simp add: checkAndStartGame_def)
next
  case (Own room)
  then have "(roomId, room) \<in> set rs"
    by (simp add: rooms_get_Own_iff map_of_SomeD)
  with assms Own show ?thesis
    by (auto simp: checkAndStartGame_def Let_def split: if_splits dest!: rooms_set_provenance)
qed

lemma toggle_ready_provenance:
  assumes "toggle_ready now sid roomId rs = Inr (rs', es)" and "(k, r') \<in> set rs'"
  shows "\<exists>r. (k, r) \<in> set rs \<and> map id_p (players r') = map id_p (players r)"
proof (cases "rooms_get rs roomId")
  case Absent
  with assms show ?thesis by (auto simp: toggle_ready_def)
next
  case Inherited
  with assms show ?thesis by (simp add: toggle_ready_def)
next
  case (Own room)
  then have mem: "(roomId, room) \<in> set rs"
    by (simp add: rooms_get_Own_iff map_of_SomeD)
  show ?thesis
  proof (cases "findIndex (\<lambda>p. id_p p = sid) (players room)")
    case None
    with assms Own show ?thesis by (auto simp: toggle_ready_def)
  next
    case (Some i)
    define ps where "ps = (players room)[i := (players room ! i)\<lparr>isReady := \<not> isReady (players room ! i)\<rparr>]"
    have ids: "map id_p ps = map id_p (players room)"
      by (simp add: ps_def map_list_update_same)
    from assms(1) Own Some obtain es' where
      "checkAndStartGame now roomId (rooms_set roomId (room\<lparr>players := ps\<rparr>) rs) = Inr (rs', es')"
      by (auto simp: toggle_ready_def Let_def ps_def split: sum.splits)
    from checkAndStartGame_provenance [OF this assms(2)] obtain r1 where
      r1: "(k, r1) \<in> set (rooms_set roomId (room\<lparr>players := ps\<rparr>) rs)" "players r' = players r1"
      by blast
    from rooms_set_provenance [OF r1(1)] show ?thesis
      using r1(2) mem ids by auto
  qed
qed

lemma update_player_provenance:
  assumes "update_player now sid roomId sc st rs = Inr (rs', es)" and "(k, r') \<in> set rs'"
  shows "\<exists>r. (k, r) \<in> set rs \<and> map id_p (players r') = map id_p (players r)"
proof (cases "rooms_get rs roomId")
  case Absent
  with assms show ?thesis by (auto simp: update_player_def)
next
  case Inherited
  with assms show ?thesis by (simp add: update_player_def)
next
  case (Own room)
  then have mem: "(roomId, room) \<in> set rs"
    by (simp add: rooms_get_Own_iff map_of_SomeD)
  show ?thesis
  proof (cases "findIndex (\<lambda>p. id_p p = sid) (players room)")
    case None
    with assms Own show ?thesis by (auto simp: update_player_def)
  next
    case (Some i)
    define ps where "ps = (players room)[i := (players room ! i)\<lparr>score := sc, status_p := st\<rparr>]"
    have ids: "map id_p ps = map id_p (players room)"
      by (simp add: ps_def map_list_update_same)
    from assms(1) Own Some obtain room' where
      "rs' = rooms_set roomId room' rs" "players room' = ps"
      by (auto simp: update_player_def Let_def ps_def split: if_splits)
    with assms(2) mem ids show ?thesis
      by (auto dest!: rooms_set_provenance)
  qed
qed

lemma kick_player_provenance:
  assumes "kick_player sid roomId targetId rs = Inr (rs', es)" and "(k, r') \<in> set rs'"
  shows "\<exists>r. (k, r) \<in> set rs \<and> subseq (map id_p (players r')) (map id_p (players r))"
proof (cases "rooms_get rs roomId")
  case Absent
  with assms show ?thesis by (auto simp: kick_player_def)
next
  case Inherited
  with assms show ?thesis by (simp add: kick_player_def)
next
  case (Own room)
  then have mem: "(roomId, room) \<in> set rs"
    by (simp add: rooms_get_Own_iff map_of_SomeD)
  have "subseq (map id_p (splice1 i (players room))) (map id_p (players room))" for i
    by (simp add: map_splice1 splice1_subseq)
  with assms Own mem show ?thesis
    by (auto simp: kick_player_def Let_def split: if_splits option.splits
        dest!: rooms_set_provenance)
qed

lemma reset_action_provenance:
  assumes "reset_action roomId rs = (rs', es)" and "(k, r') \<in> set rs'"
  shows "\<exists>r. (k, r) \<in> set rs \<and> subseq (map id_p (players r')) (map id_p (players r))"
proof (cases "rooms_get rs roomId")
  case Absent
  with assms show ?thesis by (auto simp: reset_action_def)
next
  case Inherited
  with assms show ?thesis by (auto simp: reset_action_def)
next
  case (Own room)
  then have mem: "(roomId, room) \<in> set rs"
    by (simp add: rooms_get_Own_iff map_of_SomeD)
  with assms Own show ?thesis
    by (auto simp: reset_action_def Let_def rooms_delete_def split: if_splits list.splits
        dest!: rooms_set_provenance)
qed

lemma disconnect_provenance:
  assumes "disconnect sid rs = (rs', es)" and "(k, r') \<in> set rs'"
  shows "\<exists>r. (k, r) \<in> set rs \<and> subseq (map id_p (players r')) (map id_p (players r))"
  using assms
proof (induction rs arbitrary: rs' es)
  case Nil
  then show ?case by simp
next
  case (Cons kr rs)
  obtain k0 r0 where kr: "kr = (k0, r0)" by (cases kr)
  obtain rest' es0 where rest: "disconnect sid rs = (rest', es0)" by (cases "disconnect sid rs")
  have sub: "subseq (map id_p (splice1 i (players r0))) (map id_p (players r0))" for i
    by (simp add: map_splice1 splice1_subseq)
  from Cons.prems kr rest
  have "(k, r') \<in> set rest' \<or>
    (k = k0 \<and> (r' = r0 \<or> (\<exists>i. r' = r0\<lparr>players := splice1 i (players r0)\<rparr>)))"
    by (auto simp: Let_def split: option.splits if_splits)
  then show ?case
  proof
    assume "(k, r') \<in> set rest'"
    from Cons.IH [OF rest this] show ?thesis by auto
  next
    assume "k = k0 \<and> (r' = r0 \<or> (\<exists>i. r' = r0\<lparr>players := splice1 i (players r0)\<rparr>))"
    with kr sub show ?thesis by auto
  qed
qed


lemma join_room_provenance:
  assumes "join_room now sid roomId nm rs = Inr (rs', es)" and "(k, r') \<in> set rs'"
  shows "(\<exists>r. (k, r) \<in> set rs \<and> players r' = players r) \<or> players r' = [] \<or>
     (k = roomId \<and>
      length (case map_of rs roomId of None \<Rightarrow> [] | Some r \<Rightarrow> players r) < REQUIRED_PLAYERS \<and>
      players r' = (case map_of rs roomId of None \<Rightarrow> [] | Some r \<Rightarrow> players r) @ [newPlayer sid nm])"
proof -
  define rs1 where "rs1 = (if rooms_get rs roomId = Absent
    then rooms_insert roomId \<lparr>players = [], status = LOBBY\<rparr> rs else rs)"
  define before where "before = (case map_of rs roomId of None \<Rightarrow> [] | Some r \<Rightarrow> players r)"
  show ?thesis
  proof (cases "rooms_get rs1 roomId")
    case Absent
    with assms show ?thesis by (simp add: join_room_def rs1_def)
  next
    case Inherited
    with assms show ?thesis by (simp add: join_room_def rs1_def)
  next
    case (Own room)
    then have m1: "map_of rs1 roomId = Some room"
      by (simp add: rooms_get_Own_iff)
    have room: "players room = before \<and>
      (\<forall>k r. (k, r) \<in> set rs1 \<longrightarrow> (k, r) \<in> set rs \<or> players r = [])"
    proof (cases "rooms_get rs roomId = Absent")
      case True
      then have "map_of rs roomId = None"
        by (simp add: rooms_get_def split: option.splits)
      with True m1 show ?thesis
        by (auto simp: rs1_def before_def map_of_rooms_insert)
    next
      case False
      with m1 show ?thesis
        by (auto simp: rs1_def before_def)
    qed
    show ?thesis
    proof (cases "status room = PLAYING \<or> length (players room) \<ge> REQUIRED_PLAYERS")
      case True
      with assms(1) Own have "rs' = rs1"
        by (auto simp: join_room_def rs1_def [symmetric] split: if_splits)
      with assms(2) room show ?thesis
        by auto
    next
      case False
      let ?ps = "players room @ [newPlayer sid nm]"
      let ?rs2 = "rooms_set roomId (room\<lparr>players := ?ps\<rparr>) rs1"
      have "map_of ?rs2 roomId = Some (room\<lparr>players := ?ps\<rparr>)"
        using m1 by (simp add: map_of_rooms_set)
      then have "checkAndStartGame now roomId ?rs2 = Inr (?rs2, [])"
        by (rule checkAndStartGame_unready) (simp add: newPlayer_def)
      with assms(1) Own False have "rs' = ?rs2"
        by (auto simp: join_room_def rs1_def [symmetric] Let_def)
      with assms(2) have "(k, r') \<in> set rs1 \<or> (k = roomId \<and> r' = room\<lparr>players := ?ps\<rparr>)"
        by (auto dest!: rooms_set_provenance)
      with room False show ?thesis
        by (auto simp: before_def)
    qed
  qed
qed

lemma step_provenance:
  assumes "step a s = Inr (s', es)" and "(k, r') \<in> set (rooms s')"
  shows "(\<exists>r. (k, r) \<in> set (rooms s) \<and> subseq (map id_p (players r')) (map id_p (players r))) \<or>
     players r' = [] \<or>
     (\<exists>now sid nm. a = Receive now (Join_room sid k nm) \<and>
        length (case map_of (rooms s) k of None \<Rightarrow> [] | Some r \<Rightarrow> players r) < REQUIRED_PLAYERS \<and>
        players r' = (case map_of (rooms s) k of None \<Rightarrow> [] | Some r \<Rightarrow> players r) @ [newPlayer sid nm])"
proof (cases a)
  case Timer_fires
  show ?thesis
  proof (cases "timers s")
    case Nil
    with assms Timer_fires show ?thesis by auto
  next
    case (Cons roomId pending)
    obtain rs es' where r: "reset_action roomId (rooms s) = (rs, es')"
      by (cases "reset_action roomId (rooms s)")
    with assms Timer_fires Cons have "(k, r') \<in> set rs"
      by auto
    from reset_action_provenance [OF r this] show ?thesis
      by blast
  qed
next
  case (Receive now req)
  with assms obtain rs where h: "handler now req (rooms s) = Inr (rs, es)" and rs: "rooms s' = rs"
    by (auto split: sum.splits)
  from assms(2) rs have mem: "(k, r') \<in> set rs" by simp
  show ?thesis
  proof (cases req)
    case (Join_room sid roomId nm)
    with h have "join_room now sid roomId nm (rooms s) = Inr (rs, es)" by simp
    from join_room_provenance [OF this mem] Receive Join_room show ?thesis
      by auto
  next
    case (Toggle_ready sid roomId)
    with h have "toggle_ready now sid roomId (rooms s) = Inr (rs, es)" by simp
    from toggle_ready_provenance [OF this mem] show ?thesis
      by (metis subseq_order.order_refl)
  next
    case (Kick_player sid roomId targetId)
    with h have "kick_player sid roomId targetId (rooms s) = Inr (rs, es)" by simp
    from kick_player_provenance [OF this mem] show ?thesis
      by blast
  next
    case (Update_player sid roomId sc st)
    with h have "update_player now sid roomId sc st (rooms s) = Inr (rs, es)" by simp
    from update_player_provenance [OF this mem] show ?thesis
      by (metis subseq_order.order_refl)
  next
    case (Disconnect sid)
    with h have "disconnect sid (rooms s) = (rs, es)" by simp
    from disconnect_provenance [OF this mem] show ?thesis
      by blast
  qed
qed

lemma step_capacity:
  assumes "\<forall>(k, r)\<in>set (rooms s). length (players r) \<le> REQUIRED_PLAYERS"
    and "step a s = Inr (s', es)"
  shows "\<forall>(k, r)\<in>set (rooms s'). length (players r) \<le> REQUIRED_PLAYERS"
proof clarify
  fix k r'
  assume "(k, r') \<in> set (rooms s')"
  from step_provenance [OF assms(2) this]
  consider r where "(k, r) \<in> set (rooms s)" "subseq (map id_p (players r')) (map id_p (players r))"
    | "players r' = []"
    | ps p where "length ps < REQUIRED_PLAYERS" "players r' = ps @ [p]"
    by blast
  then show "length (players r') \<le> REQUIRED_PLAYERS"
  proof cases
    case 1
    from 1(2) have "length (players r') \<le> length (players r)"
      by (metis length_map list_emb_length)
    with assms(1) 1(1) show ?thesis by fastforce
  next
    case 2
    then show ?thesis by simp
  next
    case 3
    then show ?thesis by simp
  qed
qed

lemma run_reachable: "reachable s \<Longrightarrow> run as s = Inr s' \<Longrightarrow> reachable s'"
proof (induction as arbitrary: s)
  case Nil
  then show ?case by simp
next
  case (Cons a as)
  then show ?case
    by (auto split: sum.splits intro: reachable_step)
qed

lemma run_two_joins:
  "run [Receive 0 (Join_room ''a'' ''R'' (Some ''Ann'')), Receive 1 (Join_room ''b'' ''R'' (Some ''Bob''))]
     initial = Inr \<lparr>rooms = [(''R'', room_ab False False LOBBY)], timers = []\<rparr>"
  by (simp add: room_ab_def initial_def join_room_def checkAndStartGame_def rooms_get_def
      Object_prototype_keys_def newPlayer_def enumerated_before_def is_array_index_def Let_def
      REQUIRED_PLAYERS_def)

subsection \<open>Invariants of the reachable states\<close>

text \<open>
  Claim C1. In every reachable state of the server, no room has more than
  \<open>REQUIRED_PLAYERS\<close> players: \<open>join_room\<close> adds a player only to a room with fewer, and
  no other handler, nor the reset action, makes a player list longer.
\<close>

theorem players_never_exceed_required:
  assumes "reachable s"
  shows "\<forall>(roomId, room)\<in>set (rooms s). length (players room) \<le> REQUIRED_PLAYERS"
  using assms
proof (induction rule: reachable.induct)
  case reachable_initial
  show ?case by (simp add: initial_def)
next
  case (reachable_step s a s' es)
  from reachable_step.IH reachable_step.hyps(2) show ?case
    by (rule step_capacity)
qed

theorem players_never_exceed_required_witness:
  "reachable \<lparr>rooms = [(''R'', room_ab False False LOBBY)], timers = []\<rparr> \<and>
   length (players (room_ab False False LOBBY)) \<le> REQUIRED_PLAYERS \<and>
   join_room 2 ''c'' ''R'' None [(''R'', room_ab False False LOBBY)] =
     Inr ([(''R'', room_ab False False LOBBY)],
          [socket_emit ''c'' (error_msg ''Team is full (Max 2 Agents).'')])"
proof -
  have r: "reachable \<lparr>rooms = [(''R'', room_ab False False LOBBY)], timers = []\<rparr>"
    using reachable_initial run_two_joins by (rule run_reachable)
  have "join_room 2 ''c'' ''R'' None [(''R'', room_ab False False LOBBY)] =
     Inr ([(''R'', room_ab False False LOBBY)],
          [socket_emit ''c'' (error_msg ''Team is full (Max 2 Agents).'')])"
    by (simp add: room_ab_def join_room_def rooms_get_def REQUIRED_PLAYERS_def decimal.simps)
  with r players_never_exceed_required [OF r] show ?thesis
    by simp
qed

text \<open>
  Claim C9, as stated, fails: \<open>join_room\<close> does not look for the sender among the players
  of the room, so a connection that joins the same room twice is in it twice.
\<close>

theorem join_room_twice_counterexample:
  "run [Receive 0 (Join_room ''a'' ''R'' (Some ''Ann'')), Receive 1 (Join_room ''a'' ''R'' (Some ''Ann''))]
     initial =
     Inr \<lparr>rooms = [(''R'', \<lparr>players = [ann False 0 ''ALIVE'', ann False 0 ''ALIVE''],
                             status = LOBBY\<rparr>)], timers = []\<rparr> \<and>
   reachable \<lparr>rooms = [(''R'', \<lparr>players = [ann False 0 ''ALIVE'', ann False 0 ''ALIVE''],
                             status = LOBBY\<rparr>)], timers = []\<rparr> \<and>
   \<not> distinct (map id_p [ann False 0 ''ALIVE'', ann False 0 ''ALIVE''])"
proof -
  have run: "run [Receive 0 (Join_room ''a'' ''R'' (Some ''Ann'')),
                  Receive 1 (Join_room ''a'' ''R'' (Some ''Ann''))] initial =
     Inr \<lparr>rooms = [(''R'', \<lparr>players = [ann False 0 ''ALIVE'', ann False 0 ''ALIVE''],
                             status = LOBBY\<rparr>)], timers = []\<rparr>"
    by (simp add: ann_def initial_def join_room_def checkAndStartGame_def rooms_get_def
      Object_prototype_keys_def newPlayer_def enumerated_before_def is_array_index_def Let_def
      REQUIRED_PLAYERS_def)
  with reachable_initial
  have "reachable \<lparr>rooms = [(''R'', \<lparr>players = [ann False 0 ''ALIVE'', ann False 0 ''ALIVE''],
                             status = LOBBY\<rparr>)], timers = []\<rparr>"
    by (rule run_reachable)
  with run show ?thesis
    by (simp add: ann_def)
qed

lemma step_unique_ids:
  assumes "\<forall>(k, r)\<in>set (rooms s). distinct (map id_p (players r))"
    and "step a s = Inr (s', es)" and "\<not> rejoins a (rooms s)"
  shows "\<forall>(k, r)\<in>set (rooms s'). distinct (map id_p (players r))"
proof clarify
  fix k r'
  assume "(k, r') \<in> set (rooms s')"
  from step_provenance [OF assms(2) this]
  consider r where "(k, r) \<in> set (rooms s)" "subseq (map id_p (players r')) (map id_p (players r))"
    | "players r' = []"
    | now sid nm where "a = Receive now (Join_room sid k nm)"
        "players r' = (case map_of (rooms s) k of None \<Rightarrow> [] | Some r \<Rightarrow> players r) @ [newPlayer sid nm]"
    by blast
  then show "distinct (map id_p (players r'))"
  proof cases
    case 1
    with assms(1) show ?thesis by (fastforce intro: subseq_distinct)
  next
    case 2
    then show ?thesis by simp
  next
    case 3
    show ?thesis
    proof (cases "map_of (rooms s) k")
      case None
      with 3 show ?thesis by simp
    next
      case (Some r)
      then have "(k, r) \<in> set (rooms s)" by (rule map_of_SomeD)
      with assms(1) have "distinct (map id_p (players r))" by fastforce
      moreover from assms(3) 3(1) Some have "sid \<notin> set (map id_p (players r))" by simp
      ultimately show ?thesis
        using 3(2) Some by (simp add: newPlayer_def)
    qed
  qed
qed

text \<open>
  Claim C9, amended. In every state reached by a run in which no connection sends
  \<open>join_room\<close> for a room it is already a player of, the ids of the players of each room are
  pairwise distinct: no \<open>toggle_ready\<close>, \<open>kick_player\<close>, \<open>update_player\<close>, \<open>disconnect\<close> or reset,
  and no \<open>join_room\<close> from a connection that is not in the room, makes an id appear twice.
\<close>

theorem ids_unique_when_joining_once:
  assumes "reachable_joining_once s"
  shows "\<forall>(roomId, room)\<in>set (rooms s). distinct (map id_p (players room))"
  using assms
proof (induction rule: reachable_joining_once.induct)
  case joining_once_initial
  show ?case by (simp add: initial_def)
next
  case (joining_once_step s a s' es)
  from joining_once_step.IH joining_once_step.hyps(3) joining_once_step.hyps(2) show ?case
    by (rule step_unique_ids)
qed

theorem ids_unique_when_joining_once_witness:
  "reachable_joining_once \<lparr>rooms = [(''R'', room_ab False False LOBBY)], timers = []\<rparr> \<and>
   distinct (map id_p (players (room_ab False False LOBBY)))"
proof -
  let ?s1 = "\<lparr>rooms = [(''R'', \<lparr>players = [ann False 0 ''ALIVE''], status = LOBBY\<rparr>)], timers = []\<rparr>"
  let ?s2 = "\<lparr>rooms = [(''R'', room_ab False False LOBBY)], timers = []\<rparr>"
  have 1: "step (Receive 0 (Join_room ''a'' ''R'' (Some ''Ann''))) initial = Inr (?s1,
      [socket_join ''a'' ''R'', io_to_emit ''R'' (room_update [ann False 0 ''ALIVE''])])"
    by (simp add: ann_def initial_def join_room_def checkAndStartGame_def rooms_get_def
      Object_prototype_keys_def newPlayer_def Let_def REQUIRED_PLAYERS_def)
  have 2: "step (Receive 1 (Join_room ''b'' ''R'' (Some ''Bob''))) ?s1 = Inr (?s2,
      [socket_join ''b'' ''R'', io_to_emit ''R'' (room_update (players (room_ab False False LOBBY)))])"
    by (simp add: ann_def room_ab_def join_room_def checkAndStartGame_def rooms_get_def
      newPlayer_def Let_def REQUIRED_PLAYERS_def)
  have "reachable_joining_once ?s1"
    by (rule joining_once_step [OF joining_once_initial _ 1]) (simp add: initial_def)
  then have r: "reachable_joining_once ?s2"
    by (rule joining_once_step [OF _ _ 2]) (simp add: ann_def)
  with ids_unique_when_joining_once [OF r] show ?thesis
    by simp
qed

end
